theory Spec2Isabelle
  imports Main "HOL-Library.Word" "HOL-Library.AList"
begin

section \<open>The versioning core of the datastore package\<close>

text \<open>
  The development embeds \<^verbatim>\<open>datastore/dataset.go\<close> and the prefix lookup of
  \<^verbatim>\<open>datastore/versioning.go\<close>.

  \<^item> A Go map is an association list with distinct keys. Reading a key is \<open>map_of\<close>,
    the assignment \<^verbatim>\<open>m[k] = v\<close> is \<open>AList.update\<close>, and the order of the list stands for
    the order in which a \<^verbatim>\<open>range\<close> loop visits the map. Go leaves that order open, so
    every statement about a function that iterates is made for all such lists.
  \<^item> A pointer to a Dataset is an address into an explicit store (the \<open>heap\<close> field
    of the registry): the slice \<^verbatim>\<open>Datasets\<close> and the index \<^verbatim>\<open>versionMap\<close> both hold
    addresses, so they share the objects they point to, as in the source.
  \<^item> A mutating method takes the state and returns it, next to its result.
  \<^item> The values the source takes from outside (\<^verbatim>\<open>NewUUID()\<close>, \<^verbatim>\<open>time.Now()\<close>, the
    type registry, the codec of package dvid, the storage backend) are arguments.
  \<^item> The mutexes are left out: every function is modelled as one sequential call.
\<close>

subsection \<open>Data model\<close>

type_synonym UUID = string
type_synonym DataString = string
type_synonym Time = nat

text \<open>
  Modelled from the spec: the declarations of \<^verbatim>\<open>dvid.LocalID\<close> and \<^verbatim>\<open>dvid.LocalID32\<close> are
  not part of the sources at hand. The spec describes the local id as a small signed
  integer of 16-bit range (and \<^verbatim>\<open>versioning.go\<close> declares \<^verbatim>\<open>VersionId\<close> as \<^verbatim>\<open>int16\<close>);
  the dataset id is the 32-bit identifier. Go's \<^verbatim>\<open>++\<close> wraps around on both.
\<close>

type_synonym LocalID = "16 word"
type_synonym LocalID32 = "32 word"
type_synonym VersionId = "16 word"

text \<open>
  The source builds every error with \<^verbatim>\<open>fmt.Errorf\<close>; the constructors below name the
  kind of each message and keep the identifier the message prints.
  \<^item> \<open>NotFound\<close>: "No node found with UUID ..." and "Could not find UUID with partial
    match to ...";
  \<^item> \<open>NotLocked\<close>: "Cannot create a child of an unlocked node ...";
  \<^item> \<open>Ambiguous\<close>: "More than one UUID matches ...";
  \<^item> \<open>AlreadyExists\<close>: "Data named ... already exists in dataset ...";
  \<^item> \<open>UnknownType\<close>: "No data type ... found";
  \<^item> \<open>DeserializeError\<close>: "Error in deserializing datasets: ...";
  \<^item> \<open>External\<close>: an error handed through from the backend or a type service.
\<close>

datatype error =
    NotFound string
  | NotLocked string
  | Ambiguous string
  | AlreadyExists string string
  | UnknownType string
  | DeserializeError error
  | External string

datatype DataAvail = DataComplete | DataDelta | DataRoot | DataDeleted

record NodeVersion =
  GlobalID :: UUID
  VersionID :: LocalID
  Locked :: bool
  Parents :: "UUID list"
  Children :: "UUID list"
  Created :: Time
  Updated :: Time

record NodeText =
  Note :: string
  Provenance :: string

text \<open>\<^verbatim>\<open>Node\<close> embeds two pointers; the one to the text may be nil.\<close>

record Node =
  NodeVersion :: NodeVersion
  NodeText :: "NodeText option"
  Avail :: "(DataString \<times> DataAvail) list"

record VersionDAG =
  Root :: UUID
  Nodes :: "(UUID \<times> Node) list"
  VersionMap :: "(UUID \<times> LocalID) list"
  NewVersionID :: LocalID
  NewDataID :: LocalID

subsection \<open>The version DAG\<close>

text \<open>\<^verbatim>\<open>NewVersionDAG\<close>, given the UUID that \<^verbatim>\<open>NewUUID()\<close> mints and the current time.\<close>

definition NewVersionDAG :: "UUID \<Rightarrow> Time \<Rightarrow> VersionDAG" where
  "NewVersionDAG root t =
     (let dag = \<lparr>Root = root, Nodes = [], VersionMap = [], NewVersionID = 0, NewDataID = 0\<rparr>;
          version = \<lparr>GlobalID = Root dag, VersionID = 0, Locked = False, Parents = [],
                     Children = [], Created = t, Updated = t\<rparr>;
          dag = dag\<lparr>Nodes := AList.update (Root dag)
                   \<lparr>NodeVersion = version, NodeText = None, Avail = []\<rparr> (Nodes dag)\<rparr>;
          dag = dag\<lparr>VersionMap := AList.update (Root dag) 0 (VersionMap dag)\<rparr>
      in dag\<lparr>NewVersionID := 1\<rparr>)"

text \<open>\<^verbatim>\<open>Lock\<close>: the error (or nil) and the DAG after the call.\<close>

definition Lock :: "UUID \<Rightarrow> VersionDAG \<Rightarrow> error option \<times> VersionDAG" where
  "Lock u dag =
     (case map_of (Nodes dag) u of
        None \<Rightarrow> (Some (NotFound u), dag)
      | Some node \<Rightarrow>
          (None, dag\<lparr>Nodes := AList.update u
                    (node\<lparr>NodeVersion := (NodeVersion node)\<lparr>Locked := True\<rparr>\<rparr>) (Nodes dag)\<rparr>))"

text \<open>
  \<^verbatim>\<open>VersionDAG.newChild\<close>, given the parent, the UUID \<open>u\<close> that \<^verbatim>\<open>NewUUID()\<close> mints and
  the time \<open>t\<close>. The parent's node is changed through its pointer first, then the new
  node is stored under \<open>u\<close> and the counter is incremented.
\<close>

definition newChild :: "UUID \<Rightarrow> UUID \<Rightarrow> Time \<Rightarrow> VersionDAG \<Rightarrow> (error + UUID) \<times> VersionDAG" where
  "newChild parent u t dag =
     (case map_of (Nodes dag) parent of
        None \<Rightarrow> (Inl (NotFound parent), dag)
      | Some node \<Rightarrow>
          if \<not> Locked (NodeVersion node) then (Inl (NotLocked parent), dag)
          else
            let node' = node\<lparr>NodeVersion := (NodeVersion node)
                          \<lparr>Children := Children (NodeVersion node) @ [u], Updated := t\<rparr>\<rparr>;
                dag = dag\<lparr>Nodes := AList.update parent node' (Nodes dag)\<rparr>;
                version = \<lparr>GlobalID = u, VersionID = NewVersionID dag, Locked = False,
                           Parents = [u], Children = [], Created = t, Updated = t\<rparr>;
                dag = dag\<lparr>Nodes := AList.update u
                         \<lparr>NodeVersion = version, NodeText = None, Avail = []\<rparr> (Nodes dag)\<rparr>;
                dag = dag\<lparr>NewVersionID := NewVersionID dag + 1\<rparr>
            in (Inr u, dag))"

text \<open>\<^verbatim>\<open>Versions\<close>: the keys of the node map, in the order the loop visits them.\<close>

definition Versions :: "VersionDAG \<Rightarrow> UUID list" where
  "Versions dag = map fst (Nodes dag)"

subsection \<open>Datasets\<close>

text \<open>
  \<^verbatim>\<open>DataID\<close> is built positionally in the source, from the name, the data id and the
  dataset id; its declaration is not among the sources at hand, so the field names are
  chosen here.
\<close>

record DataID =
  DataName :: DataString
  ID :: LocalID
  DsetID :: LocalID32

text \<open>
  A Dataset embeds its version DAG. The data services of \<open>nameMap\<close> are values of a
  type \<open>'ds\<close> that the type registry produces.
\<close>

record 'ds Dataset =
  VersionDAG :: VersionDAG
  Alias :: string
  DatasetID :: LocalID32
  nameMap :: "(DataString \<times> 'ds) list"

text \<open>
  \<^verbatim>\<open>Dataset.NewData\<close>. \<open>TypeServiceByName\<close> is the lookup in the type registry and
  \<open>NewDataService\<close> the constructor of a type service; both live outside the sources at
  hand and are arguments.
\<close>

definition NewData ::
  "(string \<Rightarrow> error + 'ts) \<Rightarrow> ('ts \<Rightarrow> DataID \<Rightarrow> 'cfg \<Rightarrow> error + 'ds) \<Rightarrow>
   DataString \<Rightarrow> string \<Rightarrow> 'cfg \<Rightarrow> 'ds Dataset \<Rightarrow> error option \<times> 'ds Dataset" where
  "NewData TypeServiceByName NewDataService name typeName config dset =
     (case map_of (nameMap dset) name of
        Some dataservice \<Rightarrow> (Some (AlreadyExists name (Root (VersionDAG dset))), dset)
      | None \<Rightarrow>
          (case TypeServiceByName typeName of
             Inl err \<Rightarrow> (Some (UnknownType typeName), dset)
           | Inr typeService \<Rightarrow>
               let dataID = \<lparr>DataName = name, ID = NewDataID (VersionDAG dset), DsetID = DatasetID dset\<rparr>
               in (case NewDataService typeService dataID config of
                     Inl err \<Rightarrow> (Some err, dset)
                   | Inr dataservice \<Rightarrow>
                       (None, dset\<lparr>nameMap := AList.update name dataservice (nameMap dset)\<rparr>))))"

subsection \<open>The registry\<close>

text \<open>
  \<open>heap\<close> holds every Dataset object ever allocated; the address of an object is its
  position. \<open>Datasets\<close> is the slice of pointers, \<open>versionMap\<close> the index from UUID to
  pointer. An address is valid when it is below \<open>length heap\<close>; the operations below
  only ever store valid addresses.
\<close>

record 'ds Datasets =
  heap :: "'ds Dataset list"
  Datasets :: "nat list"
  NewDatasetID :: LocalID32
  versionMap :: "(UUID \<times> nat) list"

text \<open>
  \<^verbatim>\<open>Datasets.newDataset\<close>, given the root UUID, the time and the constant
  \<^verbatim>\<open>dvid.KeyDataStart\<close>. It returns the address of the new Dataset.
\<close>

definition newDataset ::
  "UUID \<Rightarrow> Time \<Rightarrow> LocalID \<Rightarrow> 'ds Datasets \<Rightarrow> nat \<times> 'ds Datasets" where
  "newDataset root t KeyDataStart dsets =
     (let dset = \<lparr>VersionDAG = NewVersionDAG root t, Alias = [], DatasetID = NewDatasetID dsets,
                  nameMap = []\<rparr>;
          dset = dset\<lparr>VersionDAG := (VersionDAG dset)\<lparr>NewDataID := KeyDataStart\<rparr>\<rparr>;
          a = length (heap dsets);
          dsets = dsets\<lparr>heap := heap dsets @ [dset]\<rparr>;
          dsets = dsets\<lparr>NewDatasetID := NewDatasetID dsets + 1\<rparr>;
          dsets = dsets\<lparr>Datasets := Datasets dsets @ [a]\<rparr>;
          dsets = dsets\<lparr>versionMap := AList.update (Root (VersionDAG dset)) a (versionMap dsets)\<rparr>
      in (a, dsets))"

text \<open>
  \<^verbatim>\<open>Datasets.newChild\<close>. The call on the Dataset's DAG works on the object in the heap,
  so the DAG it leaves behind is written back whatever it returns.
\<close>

definition Datasets_newChild ::
  "UUID \<Rightarrow> UUID \<Rightarrow> Time \<Rightarrow> 'ds Datasets \<Rightarrow> (error + UUID) \<times> 'ds Datasets" where
  "Datasets_newChild parent u t dsets =
     (case map_of (versionMap dsets) parent of
        None \<Rightarrow> (Inl (NotFound parent), dsets)
      | Some a \<Rightarrow>
          let dset = heap dsets ! a;
              (r, dag') = newChild parent u t (VersionDAG dset);
              dsets = dsets\<lparr>heap := (heap dsets)[a := dset\<lparr>VersionDAG := dag'\<rparr>]\<rparr>
          in (case r of
                Inl err \<Rightarrow> (Inl err, dsets)
              | Inr u \<Rightarrow> (Inr u, dsets\<lparr>versionMap := AList.update u a (versionMap dsets)\<rparr>)))"

subsection \<open>Persistence\<close>

text \<open>
  Modelled from the spec: \<^verbatim>\<open>dvid.Serialize\<close> and \<^verbatim>\<open>dvid.Deserialize\<close> are not among the
  sources at hand. By the spec the persisted form holds the ordered sequence of Datasets,
  each with its version DAG (root, node map, counters), and the dataset-id counter; the
  UUID index and the name maps are not persisted. \<open>Gob\<close> is that content. The codec is
  an argument: an encoder from \<open>Gob\<close> to bytes \<open>'b\<close> and a decoder back, either of which
  may fail. A decoder that fails writes nothing into its target (it fails closed).
\<close>

type_synonym Gob = "(VersionDAG \<times> string \<times> LocalID32) list \<times> LocalID32"

definition exported :: "'ds Datasets \<Rightarrow> Gob" where
  "exported dsets =
     (map (\<lambda>a. (VersionDAG (heap dsets ! a), Alias (heap dsets ! a), DatasetID (heap dsets ! a)))
        (Datasets dsets),
      NewDatasetID dsets)"

definition decoded :: "VersionDAG \<times> string \<times> LocalID32 \<Rightarrow> 'ds Dataset" where
  "decoded g = (case g of (d, alias, i) \<Rightarrow> \<lparr>VersionDAG = d, Alias = alias, DatasetID = i, nameMap = []\<rparr>)"

text \<open>\<^verbatim>\<open>Datasets.Serialize\<close>.\<close>

definition Serialize :: "(Gob \<Rightarrow> error + 'b) \<Rightarrow> 'ds Datasets \<Rightarrow> error + 'b" where
  "Serialize enc dsets = enc (exported dsets)"

text \<open>
  \<^verbatim>\<open>Datasets.Deserialize\<close>. The slice is reset before the decoder runs. The decoder
  allocates the Datasets it reads; the two nested loops then rebuild the index.
\<close>

definition Deserialize ::
  "('b \<Rightarrow> error + Gob) \<Rightarrow> 'b \<Rightarrow> 'ds Datasets \<Rightarrow> error option \<times> 'ds Datasets" where
  "Deserialize dec s dsets =
     (let dsets = dsets\<lparr>Datasets := []\<rparr>
      in (case dec s of
            Inl err \<Rightarrow> (Some (DeserializeError err), dsets)
          | Inr (ds, newID) \<Rightarrow>
              let base = length (heap dsets);
                  dsets = dsets\<lparr>heap := heap dsets @ map decoded ds,
                                Datasets := [base ..< base + length ds],
                                NewDatasetID := newID\<rparr>;
                  dsets = dsets\<lparr>versionMap := []\<rparr>
              in (None,
                  fold (\<lambda>dset dsets.
                          fold (\<lambda>u dsets. dsets\<lparr>versionMap := AList.update u dset (versionMap dsets)\<rparr>)
                            (Versions (VersionDAG (heap dsets ! dset))) dsets)
                    (Datasets dsets) dsets)))"

text \<open>\<^verbatim>\<open>Datasets.Get\<close>; \<open>got\<close> is what \<^verbatim>\<open>db.Get(&KeyDatasets)\<close> returns.\<close>

definition Get ::
  "('b \<Rightarrow> error + Gob) \<Rightarrow> error + 'b \<Rightarrow> 'ds Datasets \<Rightarrow> error option \<times> 'ds Datasets" where
  "Get dec got dsets =
     (case got of
        Inl err \<Rightarrow> (Some err, dsets)
      | Inr data \<Rightarrow> Deserialize dec data dsets)"

subsection \<open>Lookup by prefix\<close>

text \<open>\<^verbatim>\<open>strings.HasPrefix\<close>.\<close>

definition HasPrefix :: "string \<Rightarrow> string \<Rightarrow> bool" where
  "HasPrefix s pre \<longleftrightarrow> length pre \<le> length s \<and> take (length pre) s = pre"

text \<open>
  The loop of \<^verbatim>\<open>Datasets.DatasetFromString\<close> over the index: the state is the number of
  matches, the dataset pointer (nil at first) and the UUID (empty at first).
\<close>

fun DatasetFromString_loop ::
  "string \<Rightarrow> (UUID \<times> nat) list \<Rightarrow> nat \<times> nat option \<times> UUID \<Rightarrow> nat \<times> nat option \<times> UUID" where
  "DatasetFromString_loop str [] st = st"
| "DatasetFromString_loop str ((dsetUUID, dset) # rest) (numMatches, dataset, u) =
     (if HasPrefix dsetUUID str
      then DatasetFromString_loop str rest (numMatches + 1, Some dset, dsetUUID)
      else DatasetFromString_loop str rest (numMatches, dataset, u))"

definition DatasetFromString ::
  "string \<Rightarrow> 'ds Datasets \<Rightarrow> nat option \<times> UUID \<times> error option" where
  "DatasetFromString str dsets =
     (case DatasetFromString_loop str (versionMap dsets) (0, None, []) of
        (numMatches, dataset, u) \<Rightarrow>
          (dataset, u,
           if numMatches > 1 then Some (Ambiguous str)
           else if numMatches = 0 then Some (NotFound str)
           else None))"

text \<open>
  \<^verbatim>\<open>VersionDAG.VersionIdFromString\<close> of \<^verbatim>\<open>versioning.go\<close>, on the \<^verbatim>\<open>VersionMap\<close> of
  that file's DAG. The result \<open>id\<close> is only assigned when exactly one UUID matches.
\<close>

fun VersionIdFromString_loop ::
  "string \<Rightarrow> (UUID \<times> VersionId) list \<Rightarrow> nat \<times> VersionId \<Rightarrow> nat \<times> VersionId" where
  "VersionIdFromString_loop str [] st = st"
| "VersionIdFromString_loop str ((uuid, i) # rest) (numMatches, lastMatch) =
     (if HasPrefix uuid str
      then VersionIdFromString_loop str rest (numMatches + 1, i)
      else VersionIdFromString_loop str rest (numMatches, lastMatch))"

definition VersionIdFromString ::
  "string \<Rightarrow> (UUID \<times> VersionId) list \<Rightarrow> VersionId \<times> error option" where
  "VersionIdFromString str versionMap' =
     (case VersionIdFromString_loop str versionMap' (0, 0) of
        (numMatches, lastMatch) \<Rightarrow>
          if numMatches > 1 then (0, Some (Ambiguous str))
          else if numMatches = 0 then (0, Some (NotFound str))
          else (lastMatch, None))"

subsection \<open>Sequences of operations on one DAG\<close>

text \<open>
  A history of one DAG is a list of operations applied to the DAG that \<^verbatim>\<open>NewVersionDAG\<close>
  returns. \<open>DoChild parent u t\<close> is a call of \<^verbatim>\<open>newChild(parent)\<close> in which \<^verbatim>\<open>NewUUID()\<close>
  would mint \<open>u\<close> at time \<open>t\<close>. A call that fails leaves the DAG as it is.
\<close>

datatype op = DoLock UUID | DoChild UUID UUID Time

fun step :: "op \<Rightarrow> VersionDAG \<Rightarrow> VersionDAG" where
  "step (DoLock u) dag = snd (Lock u dag)"
| "step (DoChild parent u t) dag = snd (newChild parent u t dag)"

fun run :: "op list \<Rightarrow> VersionDAG \<Rightarrow> VersionDAG" where
  "run [] dag = dag"
| "run (x # ops) dag = run ops (step x dag)"

text \<open>
  \<open>assigned ops dag\<close> lists, in the order of creation, the \<^verbatim>\<open>VersionID\<close> of every node
  that a successful \<^verbatim>\<open>newChild\<close> of the history stores.
\<close>

fun assigned :: "op list \<Rightarrow> VersionDAG \<Rightarrow> LocalID list" where
  "assigned [] dag = []"
| "assigned (DoLock u # ops) dag = assigned ops (step (DoLock u) dag)"
| "assigned (DoChild parent u t # ops) dag =
     (case newChild parent u t dag of
        (Inl err, dag') \<Rightarrow> assigned ops dag'
      | (Inr u', dag') \<Rightarrow>
          (case map_of (Nodes dag') u' of
             None \<Rightarrow> assigned ops dag'
           | Some node \<Rightarrow> VersionID (NodeVersion node) # assigned ops dag'))"

text \<open>
  \<open>fresh ops dag\<close>: every UUID minted by a successful \<^verbatim>\<open>newChild\<close> of the history is new
  to the DAG at that moment. This is what the random generator behind \<^verbatim>\<open>NewUUID()\<close> is
  relied on for.
\<close>

fun fresh :: "op list \<Rightarrow> VersionDAG \<Rightarrow> bool" where
  "fresh [] dag = True"
| "fresh (DoLock u # ops) dag = fresh ops (step (DoLock u) dag)"
| "fresh (DoChild parent u t # ops) dag =
     ((case fst (newChild parent u t dag) of
         Inl err \<Rightarrow> True
       | Inr u' \<Rightarrow> u' \<notin> set (map fst (Nodes dag))) \<and>
      fresh ops (step (DoChild parent u t) dag))"

text \<open>
The local ids of the nodes of a DAG, in the order of the node map.
\<close>

definition ids :: "VersionDAG \<Rightarrow> LocalID list" where
  "ids dag = map (\<lambda>kv. VersionID (NodeVersion (snd kv))) (Nodes dag)"

text \<open>
  The invariant of the counter, over words: after \<open>k\<close> children the counter is \<open>k + 1\<close>
  and the nodes carry \<open>0, \<dots>, k\<close> (all modulo \<open>2 ^ 16\<close>).
\<close>

definition Inv :: "VersionDAG \<Rightarrow> nat \<Rightarrow> bool" where
  "Inv dag k \<longleftrightarrow> NewVersionID dag = of_nat (Suc k) \<and> ids dag = map of_nat [0 ..< Suc k]"

subsection \<open>Auxiliary notions for the lookups and the index\<close>

text \<open>
The entries of a map whose key starts with \<open>str\<close>, in iteration order.
\<close>

definition matches :: "string \<Rightarrow> (UUID \<times> 'a) list \<Rightarrow> (UUID \<times> 'a) list" where
  "matches str kvs = filter (\<lambda>kv. HasPrefix (fst kv) str) kvs"

text \<open>
  The index that the two loops of \<^verbatim>\<open>Deserialize\<close> build, as a function of the UUIDs
  \<open>V a\<close> of each Dataset \<open>a\<close>.
\<close>

definition rebuild :: "(nat \<Rightarrow> UUID list) \<Rightarrow> nat list \<Rightarrow> (UUID \<times> nat) list \<Rightarrow> (UUID \<times> nat) list" where
  "rebuild V as vm = fold (\<lambda>a vm. fold (\<lambda>u vm. AList.update u a vm) (V a) vm) as vm"

text \<open>
  Locking a node through the registry, as a caller does it: \<^verbatim>\<open>DatasetFromUUID(u)\<close>,
  then \<^verbatim>\<open>Lock(u)\<close> on the Dataset found.
\<close>

definition lockAt :: "UUID \<Rightarrow> 'ds Datasets \<Rightarrow> 'ds Datasets" where
  "lockAt u dsets =
     (case map_of (versionMap dsets) u of
        None \<Rightarrow> dsets
      | Some a \<Rightarrow> dsets\<lparr>heap := (heap dsets)
          [a := (heap dsets ! a)\<lparr>VersionDAG := snd (Lock u (VersionDAG (heap dsets ! a)))\<rparr>]\<rparr>)"

subsection \<open>Concrete inputs\<close>

text \<open>
Three UUIDs, as \<^verbatim>\<open>NewUUID()\<close> prints them: 32 hexadecimal digits.
\<close>

definition uuidR :: UUID where "uuidR = ''3f9a1c2e5b7d4e8fa0b1c2d3e4f50617''"

definition uuidC1 :: UUID where "uuidC1 = ''3f9b7e10aa0c4d19b2c3d4e5f6071829''"

definition uuidC2 :: UUID where "uuidC2 = ''7cd11f0e99ab4c2d8e3f405162738495''"

text \<open>
  A DAG with its root (created at time 10), the same DAG with the root locked, and the
  DAG after branching from the locked root at time 20.
\<close>

definition dagR :: VersionDAG where "dagR = NewVersionDAG uuidR 10"

definition dagL :: VersionDAG where "dagL = snd (Lock uuidR dagR)"

definition dagC :: VersionDAG where "dagC = snd (newChild uuidR uuidC1 20 dagL)"

text \<open>
  The scenario of the spec: lock the root, branch, lock the child, branch again.
\<close>

definition exOps :: "op list" where
  "exOps = [DoLock uuidR, DoChild uuidR uuidC1 20, DoLock uuidC1, DoChild uuidC1 uuidC2 30]"

text \<open>
  A long history: lock the root, then branch from it \<open>n\<close> times. The \<open>i\<close>-th child gets the
  UUID \<open>mint i\<close>, the digit \<open>c\<close> followed by \<open>i\<close> in 31 hexadecimal digits.
\<close>

definition hexdigit :: "nat \<Rightarrow> char" where
  "hexdigit d = (if d < 10 then char_of (48 + d) else char_of (87 + d))"

fun hexpad :: "nat \<Rightarrow> nat \<Rightarrow> string" where
  "hexpad 0 n = []"
| "hexpad (Suc k) n = hexpad k (n div 16) @ [hexdigit (n mod 16)]"

definition mint :: "nat \<Rightarrow> UUID" where
  "mint n = CHR ''c'' # hexpad 31 n"

fun children :: "UUID \<Rightarrow> nat \<Rightarrow> op list" where
  "children parent 0 = []"
| "children parent (Suc n) = children parent n @ [DoChild parent (mint n) n]"

definition branch_ops :: "nat \<Rightarrow> op list" where
  "branch_ops n = DoLock uuidR # children uuidR n"

text \<open>
The root of the long history stays in the node map, locked, with local id 0.
\<close>

definition root_ok :: "VersionDAG \<Rightarrow> bool" where
  "root_ok dag =
     (case map_of (Nodes dag) uuidR of
        None \<Rightarrow> False
      | Some node \<Rightarrow> Locked (NodeVersion node) \<and> VersionID (NodeVersion node) = 0)"

text \<open>
  A type registry with one type, whose data service is the \<^verbatim>\<open>DataID\<close> it was built from,
  and a Dataset as \<^verbatim>\<open>newDataset\<close> makes it (with \<^verbatim>\<open>KeyDataStart\<close> = 1), before and after
  adding two data instances.
\<close>

definition exTypeServiceByName :: "string \<Rightarrow> error + string" where
  "exTypeServiceByName typeName =
     (if typeName = ''grayscale8'' then Inr typeName else Inl (External ''unknown type''))"

definition exNewDataService :: "string \<Rightarrow> DataID \<Rightarrow> unit \<Rightarrow> error + DataID" where
  "exNewDataService typeService dataID config = Inr dataID"

definition exDataset :: "DataID Dataset" where
  "exDataset = \<lparr>VersionDAG = (NewVersionDAG uuidR 10)\<lparr>NewDataID := 1\<rparr>, Alias = [],
     DatasetID = 0, nameMap = []\<rparr>"

definition exDataset1 :: "DataID Dataset" where
  "exDataset1 = snd (NewData exTypeServiceByName exNewDataService ''gray'' ''grayscale8'' () exDataset)"

definition exDataset2 :: "DataID Dataset" where
  "exDataset2 = snd (NewData exTypeServiceByName exNewDataService ''mask'' ''grayscale8'' () exDataset1)"

text \<open>
  Registries: empty; with one Dataset; with its root locked; after one branch; after
  locking the child and branching again.
\<close>

definition emptyDatasets :: "DataID Datasets" where
  "emptyDatasets = \<lparr>heap = [], Datasets = [], NewDatasetID = 0, versionMap = []\<rparr>"

definition exRegistry0 :: "DataID Datasets" where
  "exRegistry0 = snd (newDataset uuidR 10 1 emptyDatasets)"

definition exRegistry1 :: "DataID Datasets" where
  "exRegistry1 = lockAt uuidR exRegistry0"

definition exRegistry2 :: "DataID Datasets" where
  "exRegistry2 = snd (Datasets_newChild uuidR uuidC1 20 exRegistry1)"

definition exRegistry3 :: "DataID Datasets" where
  "exRegistry3 = snd (Datasets_newChild uuidC1 uuidC2 30 (lockAt uuidC1 exRegistry2))"

text \<open>
A \<^verbatim>\<open>VersionMap\<close> of \<^verbatim>\<open>versioning.go\<close> and a decoder that rejects its input.
\<close>

definition exVersionMap :: "(UUID \<times> VersionId) list" where
  "exVersionMap = [(uuidR, 0), (uuidC1, 1), (uuidC2, 2)]"

definition exFailingDecoder :: "8 word list \<Rightarrow> error + Gob" where
  "exFailingDecoder s = Inl (External ''checksum mismatch'')"

section \<open>Properties\<close>

subsection \<open>The concrete inputs, evaluated\<close>

lemma uuid_neq [simp]: "uuidR \<noteq> uuidC1" "uuidC1 \<noteq> uuidR" "uuidR \<noteq> uuidC2" "uuidC2 \<noteq> uuidR"
  "uuidC1 \<noteq> uuidC2" "uuidC2 \<noteq> uuidC1"
  by (simp_all add: uuidR_def uuidC1_def uuidC2_def)

lemma dagR_eq: "dagR = \<lparr>Root = uuidR,
    Nodes = [(uuidR, \<lparr>NodeVersion = \<lparr>GlobalID = uuidR, VersionID = 0, Locked = False, Parents = [],
        Children = [], Created = 10, Updated = 10\<rparr>, NodeText = None, Avail = []\<rparr>)],
    VersionMap = [(uuidR, 0)], NewVersionID = 1, NewDataID = 0\<rparr>"
  by (simp add: dagR_def NewVersionDAG_def Let_def)

lemma dagL_eq: "dagL = \<lparr>Root = uuidR,
    Nodes = [(uuidR, \<lparr>NodeVersion = \<lparr>GlobalID = uuidR, VersionID = 0, Locked = True, Parents = [],
        Children = [], Created = 10, Updated = 10\<rparr>, NodeText = None, Avail = []\<rparr>)],
    VersionMap = [(uuidR, 0)], NewVersionID = 1, NewDataID = 0\<rparr>"
  by (simp add: dagL_def dagR_eq Lock_def)

lemma newChild_dagL: "newChild uuidR uuidC1 20 dagL = (Inr uuidC1, \<lparr>Root = uuidR,
    Nodes = [(uuidR, \<lparr>NodeVersion = \<lparr>GlobalID = uuidR, VersionID = 0, Locked = True, Parents = [],
        Children = [uuidC1], Created = 10, Updated = 20\<rparr>, NodeText = None, Avail = []\<rparr>),
      (uuidC1, \<lparr>NodeVersion = \<lparr>GlobalID = uuidC1, VersionID = 1, Locked = False, Parents = [uuidC1],
        Children = [], Created = 20, Updated = 20\<rparr>, NodeText = None, Avail = []\<rparr>)],
    VersionMap = [(uuidR, 0)], NewVersionID = 2, NewDataID = 0\<rparr>)"
  by (simp add: dagL_eq newChild_def Let_def)

lemma dagC_eq: "dagC = \<lparr>Root = uuidR,
    Nodes = [(uuidR, \<lparr>NodeVersion = \<lparr>GlobalID = uuidR, VersionID = 0, Locked = True, Parents = [],
        Children = [uuidC1], Created = 10, Updated = 20\<rparr>, NodeText = None, Avail = []\<rparr>),
      (uuidC1, \<lparr>NodeVersion = \<lparr>GlobalID = uuidC1, VersionID = 1, Locked = False, Parents = [uuidC1],
        Children = [], Created = 20, Updated = 20\<rparr>, NodeText = None, Avail = []\<rparr>)],
    VersionMap = [(uuidR, 0)], NewVersionID = 2, NewDataID = 0\<rparr>"
  by (simp add: dagC_def newChild_dagL)

lemma exOps_steps:
  "snd (Lock uuidR (NewVersionDAG uuidR 10)) = dagL"
  "newChild uuidR uuidC1 20 dagL = (Inr uuidC1, dagC)"
  "map_of (Nodes dagL) uuidC1 = None"
  "map_of (Nodes dagC) uuidC1 = Some \<lparr>NodeVersion = \<lparr>GlobalID = uuidC1, VersionID = 1,
      Locked = False, Parents = [uuidC1], Children = [], Created = 20, Updated = 20\<rparr>,
      NodeText = None, Avail = []\<rparr>"
  "fst ` set (Nodes dagL) = {uuidR}"
     apply (simp add: dagL_def dagR_def)
    apply (simp add: newChild_dagL dagC_eq)
   apply (simp add: dagL_eq)
   apply (simp add: dagC_eq)
  apply (simp add: dagL_eq)
  done

lemma exOps_steps2:
  "newChild uuidC1 uuidC2 30 (snd (Lock uuidC1 dagC)) = (Inr uuidC2, \<lparr>Root = uuidR,
    Nodes = [(uuidR, \<lparr>NodeVersion = \<lparr>GlobalID = uuidR, VersionID = 0, Locked = True, Parents = [],
        Children = [uuidC1], Created = 10, Updated = 20\<rparr>, NodeText = None, Avail = []\<rparr>),
      (uuidC1, \<lparr>NodeVersion = \<lparr>GlobalID = uuidC1, VersionID = 1, Locked = True, Parents = [uuidC1],
        Children = [uuidC2], Created = 20, Updated = 30\<rparr>, NodeText = None, Avail = []\<rparr>),
      (uuidC2, \<lparr>NodeVersion = \<lparr>GlobalID = uuidC2, VersionID = 2, Locked = False, Parents = [uuidC2],
        Children = [], Created = 30, Updated = 30\<rparr>, NodeText = None, Avail = []\<rparr>)],
    VersionMap = [(uuidR, 0)], NewVersionID = 3, NewDataID = 0\<rparr>)"
  "fst ` set (Nodes (snd (Lock uuidC1 dagC))) = {uuidR, uuidC1}"
  by (simp_all add: dagC_eq Lock_def newChild_def Let_def)

lemma exRegistry0_eq: "exRegistry0 = \<lparr>heap = [\<lparr>VersionDAG = dagR\<lparr>NewDataID := 1\<rparr>, Alias = [],
     DatasetID = 0, nameMap = []\<rparr>], Datasets = [0], NewDatasetID = 1, versionMap = [(uuidR, 0)]\<rparr>"
  by (simp add: exRegistry0_def newDataset_def emptyDatasets_def Let_def dagR_def)
     (simp add: NewVersionDAG_def Let_def)

lemma exRegistry1_eq: "exRegistry1 = \<lparr>heap = [\<lparr>VersionDAG = dagL\<lparr>NewDataID := 1\<rparr>, Alias = [],
     DatasetID = 0, nameMap = []\<rparr>], Datasets = [0], NewDatasetID = 1, versionMap = [(uuidR, 0)]\<rparr>"
  by (simp add: exRegistry1_def exRegistry0_eq lockAt_def dagL_eq) (simp add: dagR_eq Lock_def)

lemma exRegistry2_eq: "exRegistry2 = \<lparr>heap = [\<lparr>VersionDAG = dagC\<lparr>NewDataID := 1\<rparr>, Alias = [],
     DatasetID = 0, nameMap = []\<rparr>], Datasets = [0], NewDatasetID = 1,
     versionMap = [(uuidR, 0), (uuidC1, 0)]\<rparr>"
  by (simp add: exRegistry2_def exRegistry1_eq Datasets_newChild_def dagC_def newChild_dagL)
     (simp add: dagL_eq newChild_def Let_def)

lemma exRegistry3_versionMap: "versionMap exRegistry3 = [(uuidR, 0), (uuidC1, 0), (uuidC2, 0)]"
  by (simp add: exRegistry3_def exRegistry2_eq Datasets_newChild_def dagC_def newChild_dagL lockAt_def)
     (simp add: Lock_def newChild_def Let_def split: prod.splits)

lemma exDataset1_eq:
  "NewData exTypeServiceByName exNewDataService ''gray'' ''grayscale8'' () exDataset =
     (None, exDataset\<lparr>nameMap := [(''gray'', \<lparr>DataName = ''gray'', ID = 1, DsetID = 0\<rparr>)]\<rparr>)"
  by (simp add: NewData_def exDataset_def exTypeServiceByName_def exNewDataService_def Let_def)

lemma exDataset2_eq:
  "NewData exTypeServiceByName exNewDataService ''mask'' ''grayscale8'' () exDataset1 =
     (None, exDataset\<lparr>nameMap := [(''gray'', \<lparr>DataName = ''gray'', ID = 1, DsetID = 0\<rparr>),
        (''mask'', \<lparr>DataName = ''mask'', ID = 1, DsetID = 0\<rparr>)]\<rparr>)"
  by (simp add: exDataset1_def exDataset1_eq)
     (simp add: NewData_def exDataset_def exTypeServiceByName_def exNewDataService_def Let_def)

lemma HasPrefix_ex:
  "HasPrefix uuidR ''3f9''" "HasPrefix uuidC1 ''3f9''" "\<not> HasPrefix uuidC2 ''3f9''"
  "\<not> HasPrefix uuidR ''7cd''" "\<not> HasPrefix uuidC1 ''7cd''" "HasPrefix uuidC2 ''7cd''"
  "\<not> HasPrefix uuidR ''836''" "\<not> HasPrefix uuidC1 ''836''" "\<not> HasPrefix uuidC2 ''836''"
  by (simp_all add: HasPrefix_def uuidR_def uuidC1_def uuidC2_def)

lemma ex_match_sets:
  "{k \<in> {uuidR, uuidC1, uuidC2}. HasPrefix k ''7cd''} = {uuidC2}"
  "{k \<in> {uuidR, uuidC1, uuidC2}. HasPrefix k ''836''} = {}"
  "{k \<in> {uuidR, uuidC1, uuidC2}. HasPrefix k ''3f9''} = {uuidR, uuidC1}"
  using HasPrefix_ex by auto

subsection \<open>Branching records the parent\<close>

lemma newChild_Parents:
  "fst (newChild parent u t dag) = Inr u' \<Longrightarrow>
     map_option (\<lambda>node. Parents (NodeVersion node)) (map_of (Nodes (snd (newChild parent u t dag))) u')
       = Some [u']"
  by (auto simp: newChild_def Let_def update_conv' split: option.splits if_splits)

text \<open>
  Claim C1: for every successful \<^verbatim>\<open>CreateChild(parent)\<close> the new node's \<^verbatim>\<open>Parents\<close> is the
  one-element sequence \<open>[parent]\<close>. The code stores the new node's own UUID instead
  (\<open>newChild_Parents\<close>). Evaluated on the DAG with a locked root: branching from
  \<open>uuidR\<close> succeeds with the new UUID \<open>uuidC1\<close>, and the new node's \<^verbatim>\<open>Parents\<close> is
  \<open>[uuidC1]\<close>, not \<open>[uuidR]\<close>.
\<close>

theorem newChild_records_own_uuid_as_parent:
  "fst (newChild uuidR uuidC1 20 dagL) = Inr uuidC1 \<and>
   map_option (\<lambda>node. Parents (NodeVersion node)) (map_of (Nodes dagC) uuidC1) = Some [uuidC1] \<and>
   [uuidC1] \<noteq> [uuidR]"
  by (simp add: dagC_def newChild_dagL)

subsection \<open>Branching and the local-id map\<close>

lemma newChild_VersionMap: "VersionMap (snd (newChild parent u t dag)) = VersionMap dag"
  by (simp add: newChild_def Let_def split: option.splits)

text \<open>
  Claim C2: every successful \<^verbatim>\<open>CreateChild\<close> inserts the new UUID into both \<^verbatim>\<open>Nodes\<close> and
  \<^verbatim>\<open>VersionMap\<close>, so both maps always have the same size. The code never touches
  \<^verbatim>\<open>VersionMap\<close> in \<^verbatim>\<open>newChild\<close> (\<open>newChild_VersionMap\<close>). Evaluated on the DAG with
  a locked root: after one successful branch \<^verbatim>\<open>Nodes\<close> has the keys \<open>uuidR\<close> and
  \<open>uuidC1\<close>, \<^verbatim>\<open>VersionMap\<close> only \<open>uuidR\<close>.
\<close>

theorem newChild_skips_VersionMap:
  "fst (newChild uuidR uuidC1 20 dagL) = Inr uuidC1 \<and>
   map fst (Nodes dagC) = [uuidR, uuidC1] \<and> map fst (VersionMap dagC) = [uuidR] \<and>
   length (Nodes dagC) \<noteq> length (VersionMap dagC)"
  by (simp add: dagC_def newChild_dagL)

subsection \<open>A failed branch changes nothing\<close>

lemma newChild_failure: "fst (newChild parent u t dag) = Inl e \<Longrightarrow> newChild parent u t dag = (Inl e, dag)"
  by (auto simp: newChild_def Let_def split: option.splits if_splits)

lemma Datasets_newChild_failure:
  assumes "fst (Datasets_newChild parent u t dsets) = Inl e"
  shows "Datasets_newChild parent u t dsets = (Inl e, dsets)"
proof (cases "map_of (versionMap dsets) parent")
  case None
  with assms show ?thesis by (simp add: Datasets_newChild_def)
next
  case (Some a)
  obtain r dag' where r: "newChild parent u t (VersionDAG (heap dsets ! a)) = (r, dag')"
    by (cases "newChild parent u t (VersionDAG (heap dsets ! a))")
  with assms Some have "r = Inl e"
    by (auto simp: Datasets_newChild_def Let_def split: sum.splits)
  with r newChild_failure [of parent u t "VersionDAG (heap dsets ! a)" e]
  have "dag' = VersionDAG (heap dsets ! a)" by simp
  with r Some \<open>r = Inl e\<close> show ?thesis
    by (simp add: Datasets_newChild_def Let_def)
qed

text \<open>
  Claim C3: \<^verbatim>\<open>newChild\<close> on a parent absent from \<^verbatim>\<open>Nodes\<close> returns the not-found error, on
  an unlocked parent the not-locked error, and in both cases returns the DAG as it was.
  The same holds for \<^verbatim>\<open>Datasets.newChild\<close>: a parent absent from the index, absent from
  the DAG of its Dataset, or unlocked gives the matching error and the registry (heap,
  slice, counter and index) as it was; and whenever \<^verbatim>\<open>Datasets.newChild\<close> returns an error
  the registry is unchanged.
\<close>

theorem newChild_failure_leaves_state:
  "(map_of (Nodes dag) parent = None \<longrightarrow>
      newChild parent u t dag = (Inl (NotFound parent), dag)) \<and>
   (\<forall>node. map_of (Nodes dag) parent = Some node \<and> \<not> Locked (NodeVersion node) \<longrightarrow>
      newChild parent u t dag = (Inl (NotLocked parent), dag)) \<and>
   (map_of (versionMap dsets) parent = None \<longrightarrow>
      Datasets_newChild parent u t dsets = (Inl (NotFound parent), dsets)) \<and>
   (\<forall>a. map_of (versionMap dsets) parent = Some a \<and>
        map_of (Nodes (VersionDAG (heap dsets ! a))) parent = None \<longrightarrow>
      Datasets_newChild parent u t dsets = (Inl (NotFound parent), dsets)) \<and>
   (\<forall>a node. map_of (versionMap dsets) parent = Some a \<and>
        map_of (Nodes (VersionDAG (heap dsets ! a))) parent = Some node \<and>
        \<not> Locked (NodeVersion node) \<longrightarrow>
      Datasets_newChild parent u t dsets = (Inl (NotLocked parent), dsets)) \<and>
   (\<forall>e. fst (Datasets_newChild parent u t dsets) = Inl e \<longrightarrow>
      snd (Datasets_newChild parent u t dsets) = dsets)"
proof (intro conjI allI impI)
  show "fst (Datasets_newChild parent u t dsets) = Inl e \<Longrightarrow>
      snd (Datasets_newChild parent u t dsets) = dsets" for e
    using Datasets_newChild_failure [of parent u t dsets e] by simp
qed (auto simp: newChild_def Datasets_newChild_def Let_def)

text \<open>
  Witness for C3: on the DAG with an unlocked root and on the registry holding it, once
  with the absent parent \<open>uuidC2\<close> and once with the unlocked parent \<open>uuidR\<close>.
\<close>

theorem newChild_failure_leaves_state_witness:
  "map_of (Nodes dagR) uuidC2 = None \<and>
   newChild uuidC2 uuidC1 20 dagR = (Inl (NotFound uuidC2), dagR) \<and>
   map_option (\<lambda>node. Locked (NodeVersion node)) (map_of (Nodes dagR) uuidR) = Some False \<and>
   newChild uuidR uuidC1 20 dagR = (Inl (NotLocked uuidR), dagR) \<and>
   map_of (versionMap exRegistry0) uuidC2 = None \<and>
   Datasets_newChild uuidC2 uuidC1 20 exRegistry0 = (Inl (NotFound uuidC2), exRegistry0) \<and>
   map_of (versionMap exRegistry0) uuidR = Some 0 \<and>
   Datasets_newChild uuidR uuidC1 20 exRegistry0 = (Inl (NotLocked uuidR), exRegistry0)"
proof -
  have a: "map_of (Nodes dagR) uuidC2 = None" by (simp add: dagR_eq)
  have b: "map_of (Nodes dagR) uuidR = Some \<lparr>NodeVersion = \<lparr>GlobalID = uuidR, VersionID = 0,
      Locked = False, Parents = [], Children = [], Created = 10, Updated = 10\<rparr>,
      NodeText = None, Avail = []\<rparr>" by (simp add: dagR_eq)
  have c: "map_of (versionMap exRegistry0) uuidC2 = None" by (simp add: exRegistry0_eq)
  have d: "map_of (versionMap exRegistry0) uuidR = Some 0" by (simp add: exRegistry0_eq)
  have e: "Nodes (VersionDAG (heap exRegistry0 ! 0)) = Nodes dagR" by (simp add: exRegistry0_eq)
  from newChild_failure_leaves_state [of dagR uuidC2 uuidC1 20 exRegistry0] newChild_failure_leaves_state [of dagR uuidR uuidC1 20 exRegistry0] a b c d e
  show ?thesis by simp
qed

subsection \<open>Local ids follow the order of creation\<close>

lemma update_fresh: "k \<notin> fst ` set al \<Longrightarrow> AList.update k v al = al @ [(k, v)]"
  by (induction al) auto

lemma map_update_same:
  "map_of al k = Some v' \<Longrightarrow> f (k, v) = f (k, v') \<Longrightarrow> map f (AList.update k v al) = map f al"
  by (induction al) (auto split: if_splits)

lemma ids_Lock: "ids (snd (Lock u dag)) = ids dag"
  by (auto simp: Lock_def ids_def map_update_same split: option.splits)

lemma NewVersionID_Lock: "NewVersionID (snd (Lock u dag)) = NewVersionID dag"
  by (auto simp: Lock_def split: option.splits)

lemma newChild_success:
  assumes "fst (newChild parent u t dag) = Inr u'" and "u' \<notin> fst ` set (Nodes dag)"
  shows "u' = u"
    and "ids (snd (newChild parent u t dag)) = ids dag @ [NewVersionID dag]"
    and "NewVersionID (snd (newChild parent u t dag)) = NewVersionID dag + 1"
    and "map_option (\<lambda>n. VersionID (NodeVersion n)) (map_of (Nodes (snd (newChild parent u t dag))) u')
         = Some (NewVersionID dag)"
proof -
  from assms(1) obtain node where node: "map_of (Nodes dag) parent = Some node"
    "Locked (NodeVersion node)" and u: "u' = u"
    by (auto simp: newChild_def Let_def split: option.splits if_splits)
  let ?node' = "node\<lparr>NodeVersion := (NodeVersion node)
                          \<lparr>Children := Children (NodeVersion node) @ [u], Updated := t\<rparr>\<rparr>"
  have keys: "u \<notin> fst ` set (AList.update parent ?node' (Nodes dag))"
    using assms(2) u node(1) by (auto simp: dom_update dest: map_of_SomeD intro: rev_image_eqI)
  show "u' = u" by (rule u)
  show "ids (snd (newChild parent u t dag)) = ids dag @ [NewVersionID dag]"
    using node keys by (simp add: newChild_def Let_def ids_def update_fresh map_update_same)
  show "NewVersionID (snd (newChild parent u t dag)) = NewVersionID dag + 1"
    using node by (simp add: newChild_def Let_def)
  show "map_option (\<lambda>n. VersionID (NodeVersion n)) (map_of (Nodes (snd (newChild parent u t dag))) u')
         = Some (NewVersionID dag)"
    using node u by (simp add: newChild_def Let_def update_conv')
qed

lemma run_Inv:
  "Inv dag k \<Longrightarrow> fresh ops dag \<Longrightarrow>
     Inv (run ops dag) (k + length (assigned ops dag)) \<and>
     assigned ops dag = map of_nat [Suc k ..< Suc k + length (assigned ops dag)]"
proof (induction ops arbitrary: dag k)
  case Nil
  then show ?case by simp
next
  case (Cons x ops)
  show ?case
  proof (cases x)
    case (DoLock u)
    have "Inv (snd (Lock u dag)) k"
      using Cons.prems(1) by (simp add: Inv_def ids_Lock NewVersionID_Lock)
    from Cons.IH [OF this] Cons.prems(2) DoLock show ?thesis by simp
  next
    case (DoChild parent u t)
    obtain r dag' where r: "newChild parent u t dag = (r, dag')"
      by (cases "newChild parent u t dag")
    show ?thesis
    proof (cases r)
      case (Inl e)
      with r newChild_failure [of parent u t dag e] have "dag' = dag" by simp
      with Cons.IH [OF Cons.prems(1), of ] Cons.prems(2) DoChild r Inl show ?thesis by simp
    next
      case (Inr u')
      with Cons.prems(2) DoChild r have fr: "u' \<notin> fst ` set (Nodes dag)" and fr': "fresh ops dag'"
        by simp_all
      have s: "fst (newChild parent u t dag) = Inr u'" using r Inr by simp
      note ns = newChild_success [OF s fr]
      have inv': "Inv dag' (Suc k)"
        using Cons.prems(1) ns(2,3) r by (simp add: Inv_def)
      from ns(4) r obtain node where node: "map_of (Nodes dag') u' = Some node"
        "VersionID (NodeVersion node) = NewVersionID dag" by auto
      have a: "assigned (x # ops) dag = of_nat (Suc k) # assigned ops dag'"
        using DoChild r Inr node Cons.prems(1) by (simp add: Inv_def)
      from Cons.IH [OF inv' fr'] have ih: "Inv (run ops dag') (Suc k + length (assigned ops dag'))"
        "assigned ops dag' = map of_nat [Suc (Suc k) ..< Suc (Suc k) + length (assigned ops dag')]"
        by simp_all
      define L where "L = length (assigned ops dag')"
      have run: "run (x # ops) dag = run ops dag'" using DoChild r by simp
      have len: "length (assigned (x # ops) dag) = Suc L" using a by (simp add: L_def)
      have upt: "[Suc k ..< Suc k + Suc L] = Suc k # [Suc (Suc k) ..< Suc (Suc k) + L]"
        by (simp add: upt_conv_Cons)
      have "Inv (run (x # ops) dag) (k + length (assigned (x # ops) dag))"
        using ih(1) by (simp only: run len L_def [symmetric] add_Suc_right add_Suc)
      moreover have "assigned (x # ops) dag =
          map of_nat [Suc k ..< Suc k + length (assigned (x # ops) dag)]"
        unfolding len upt using a ih(2) by (simp add: L_def)
      ultimately show ?thesis by blast
    qed
  qed
qed

lemma Inv_NewVersionDAG: "Inv (NewVersionDAG root t) 0"
  by (simp add: Inv_def NewVersionDAG_def Let_def ids_def)

lemma sint_of_nat16: "n < 32768 \<Longrightarrow> sint (of_nat n :: 16 word) = int n"
proof -
  assume n: "n < 32768"
  have "sint (of_nat n :: 16 word) = sint (word_of_int (int n) :: 16 word)"
    by (simp only: of_int_of_nat_eq)
  also have "\<dots> = signed_take_bit 15 (int n)" by (simp only: sint_sbintrunc') simp
  also have "\<dots> = int n" using n by (intro signed_take_bit_int_eq_self) simp_all
  finally show ?thesis .
qed

lemma map_sint_of_nat16:
  "b \<le> 32768 \<Longrightarrow> map sint (map of_nat [a ..< b] :: 16 word list) = map int [a ..< b]"
  by (simp add: sint_of_nat16)

lemma newChild_assigns:
  assumes "fst (newChild parent u t dag) = Inr u'"
  shows "map_option (\<lambda>n. VersionID (NodeVersion n)) (map_of (Nodes (snd (newChild parent u t dag))) u')
           = Some (NewVersionID dag) \<and>
         NewVersionID (snd (newChild parent u t dag)) = NewVersionID dag + 1"
  using assms by (auto simp: newChild_def Let_def update_conv' split: option.splits if_splits)

lemma run_counter:
  "NewVersionID dag = of_nat (Suc k) \<Longrightarrow>
     NewVersionID (run ops dag) = of_nat (Suc (k + length (assigned ops dag))) \<and>
     assigned ops dag = map of_nat [Suc k ..< Suc k + length (assigned ops dag)]"
proof (induction ops arbitrary: dag k)
  case Nil
  then show ?case by simp
next
  case (Cons x ops)
  show ?case
  proof (cases x)
    case (DoLock u)
    have "NewVersionID (snd (Lock u dag)) = of_nat (Suc k)"
      using Cons.prems by (simp add: NewVersionID_Lock)
    from Cons.IH [OF this] DoLock show ?thesis by simp
  next
    case (DoChild parent u t)
    obtain r dag' where r: "newChild parent u t dag = (r, dag')"
      by (cases "newChild parent u t dag")
    show ?thesis
    proof (cases r)
      case (Inl e)
      with r newChild_failure [of parent u t dag e] have "dag' = dag" by simp
      with Cons.IH [OF Cons.prems] DoChild r Inl show ?thesis by simp
    next
      case (Inr u')
      have s: "fst (newChild parent u t dag) = Inr u'" using r Inr by simp
      from newChild_assigns [OF s] r obtain node where node: "map_of (Nodes dag') u' = Some node"
        "VersionID (NodeVersion node) = NewVersionID dag"
        and c: "NewVersionID dag' = NewVersionID dag + 1" by auto
      have c': "NewVersionID dag' = of_nat (Suc (Suc k))" using c Cons.prems by simp
      have a: "assigned (x # ops) dag = of_nat (Suc k) # assigned ops dag'"
        using DoChild r Inr node Cons.prems by simp
      define L where "L = length (assigned ops dag')"
      from Cons.IH [OF c'] have ih: "NewVersionID (run ops dag') = of_nat (Suc (Suc k + L))"
        "assigned ops dag' = map of_nat [Suc (Suc k) ..< Suc (Suc k) + L]"
        by (simp_all add: L_def)
      have run: "run (x # ops) dag = run ops dag'" using DoChild r by simp
      have len: "length (assigned (x # ops) dag) = Suc L" using a by (simp add: L_def)
      have upt: "[Suc k ..< Suc k + Suc L] = Suc k # [Suc (Suc k) ..< Suc (Suc k) + L]"
        by (simp add: upt_conv_Cons)
      have "NewVersionID (run (x # ops) dag) = of_nat (Suc (k + length (assigned (x # ops) dag)))"
        using ih(1) by (simp only: run len add_Suc_right add_Suc)
      moreover have "assigned (x # ops) dag =
          map of_nat [Suc k ..< Suc k + length (assigned (x # ops) dag)]"
        unfolding len upt using a ih(2) by simp
      ultimately show ?thesis by blast
    qed
  qed
qed

text \<open>
  Claim C4, amended: \<^verbatim>\<open>NewVersionDAG\<close> gives the root the id 0 and sets the counter to 1;
  each successful \<^verbatim>\<open>newChild\<close> gives the new node the current counter and increments it.
  For every history on a new DAG that creates at most 32766 children: the ids assigned
  to the children, in creation order and read as signed 16-bit integers, are
  \<open>1, \<dots>, N\<close>; the counter is \<open>N + 1\<close> and exceeds the id of the root and every id
  assigned; and when every minted UUID is new to the DAG, the nodes of the DAG carry
  exactly the ids \<open>0, \<dots>, N\<close>, each once. The bound is needed: the counter is a 16-bit
  integer and wraps around.
\<close>

theorem version_ids_in_creation_order:
  assumes "length (assigned ops (NewVersionDAG root t0)) \<le> 32766"
  shows "ids (NewVersionDAG root t0) = [0] \<and> NewVersionID (NewVersionDAG root t0) = 1 \<and>
    (\<forall>parent u t dag u'. fst (newChild parent u t dag) = Inr u' \<longrightarrow>
       map_option (\<lambda>n. VersionID (NodeVersion n)) (map_of (Nodes (snd (newChild parent u t dag))) u')
         = Some (NewVersionID dag) \<and>
       NewVersionID (snd (newChild parent u t dag)) = NewVersionID dag + 1) \<and>
    map sint (assigned ops (NewVersionDAG root t0)) =
      map int [1 ..< Suc (length (assigned ops (NewVersionDAG root t0)))] \<and>
    sint (NewVersionID (run ops (NewVersionDAG root t0))) =
      int (length (assigned ops (NewVersionDAG root t0))) + 1 \<and>
    (\<forall>i \<in> set (0 # assigned ops (NewVersionDAG root t0)).
       i <s NewVersionID (run ops (NewVersionDAG root t0))) \<and>
    (fresh ops (NewVersionDAG root t0) \<longrightarrow>
       map sint (ids (run ops (NewVersionDAG root t0))) =
         map int [0 ..< Suc (length (assigned ops (NewVersionDAG root t0)))])"
proof -
  let ?d = "NewVersionDAG root t0"
  define N where "N = length (assigned ops ?d)"
  have N: "N \<le> 32766" using assms by (simp add: N_def)
  have 0: "ids ?d = [0]" "NewVersionID ?d = 1"
    by (simp_all add: NewVersionDAG_def Let_def ids_def)
  from run_counter [of ?d 0 ops] 0(2)
  have c: "NewVersionID (run ops ?d) = of_nat (Suc N)"
    and a: "assigned ops ?d = map of_nat [Suc 0 ..< Suc N]"
    by (simp_all add: N_def)
  have 1: "map sint (assigned ops ?d) = map int [1 ..< Suc N]"
    using a N map_sint_of_nat16 [of "Suc N" "Suc 0"] by simp
  have 3: "sint (NewVersionID (run ops ?d)) = int N + 1"
    using c N sint_of_nat16 [of "Suc N"] by simp
  have 4: "i <s NewVersionID (run ops ?d)" if "i \<in> set (0 # assigned ops ?d)" for i
  proof (cases "i = 0")
    case True
    then show ?thesis by (simp add: word_sless_alt 3)
  next
    case False
    with that have "sint i \<in> set (map sint (assigned ops ?d))" by simp
    then have "sint i \<in> set (map int [1 ..< Suc N])" by (simp only: 1)
    then have "sint i < int N + 1" by auto
    then show ?thesis by (simp add: word_sless_alt 3)
  qed
  have 2: "map sint (ids (run ops ?d)) = map int [0 ..< Suc N]" if "fresh ops ?d"
  proof -
    from run_Inv [OF Inv_NewVersionDAG that] have "Inv (run ops ?d) N" by (simp add: N_def)
    then show ?thesis using N map_sint_of_nat16 [of "Suc N" 0] by (simp add: Inv_def)
  qed
  show ?thesis
    using 0 1 2 3 4 newChild_assigns unfolding N_def by blast
qed

text \<open>
Witness for C4: the scenario of the spec, with the ids 1 and 2 and the counter 3.
\<close>

theorem version_ids_in_creation_order_witness:
  "fresh exOps (NewVersionDAG uuidR 10) \<and>
   length (assigned exOps (NewVersionDAG uuidR 10)) = 2 \<and>
   map sint (assigned exOps (NewVersionDAG uuidR 10)) = [1, 2] \<and>
   map sint (ids (run exOps (NewVersionDAG uuidR 10))) = [0, 1, 2] \<and>
   sint (NewVersionID (run exOps (NewVersionDAG uuidR 10))) = 3"
proof -
  have f: "fresh exOps (NewVersionDAG uuidR 10)"
    by (simp add: exOps_def exOps_steps exOps_steps2)
  have a: "assigned exOps (NewVersionDAG uuidR 10) = [1, 2]"
    by (simp add: exOps_def exOps_steps exOps_steps2)
  then have l: "length (assigned exOps (NewVersionDAG uuidR 10)) \<le> 32766" by simp
  have u: "[1 ..< Suc 2] = [1, 2]" "[0 ..< Suc 2] = [0, 1, 2]" by (simp_all add: upt_rec)
  from version_ids_in_creation_order [OF l] show ?thesis using f a u by simp
qed

lemma run_append: "run (xs @ ys) dag = run ys (run xs dag)"
  by (induction xs arbitrary: dag) simp_all

lemma assigned_append: "assigned (xs @ ys) dag = assigned xs dag @ assigned ys (run xs dag)"
proof (induction xs arbitrary: dag)
  case Nil
  then show ?case by simp
next
  case (Cons x xs)
  then show ?case by (cases x) (simp_all split: prod.splits sum.splits option.splits)
qed

lemma fresh_append: "fresh (xs @ ys) dag = (fresh xs dag \<and> fresh ys (run xs dag))"
proof (induction xs arbitrary: dag)
  case Nil
  then show ?case by simp
next
  case (Cons x xs)
  then show ?case by (cases x) simp_all
qed

lemma mint_neq_uuidR: "mint n \<noteq> uuidR"
  by (simp add: mint_def uuidR_def)

lemma hexdigit_inj: "a < 16 \<Longrightarrow> b < 16 \<Longrightarrow> hexdigit a = hexdigit b \<Longrightarrow> a = b"
proof -
  assume a: "a < 16" and b: "b < 16" and e: "hexdigit a = hexdigit b"
  have "of_char (hexdigit a) = (of_char (hexdigit b) :: nat)" using e by simp
  then show ?thesis using a b
    by (simp add: hexdigit_def split: if_splits)
qed

lemma hexpad_inj: "hexpad k m = hexpad k n \<Longrightarrow> m mod 16 ^ k = n mod 16 ^ k"
proof (induction k arbitrary: m n)
  case 0
  then show ?case by simp
next
  case (Suc k)
  then have 1: "hexpad k (m div 16) = hexpad k (n div 16)"
    and 2: "hexdigit (m mod 16) = hexdigit (n mod 16)" by simp_all
  from Suc.IH [OF 1] have 3: "m div 16 mod 16 ^ k = n div 16 mod 16 ^ k" .
  from hexdigit_inj [OF _ _ 2] have 4: "m mod 16 = n mod 16" by simp
  have "m mod (16 * 16 ^ k) = 16 * (m div 16 mod 16 ^ k) + m mod 16"
    by (rule mod_mult2_eq)
  moreover have "n mod (16 * 16 ^ k) = 16 * (n div 16 mod 16 ^ k) + n mod 16"
    by (rule mod_mult2_eq)
  ultimately show ?case using 3 4 by simp
qed

lemma mint_inj: "m < 16 ^ 31 \<Longrightarrow> n < 16 ^ 31 \<Longrightarrow> mint m = mint n \<Longrightarrow> m = n"
  using hexpad_inj [of 31 m n] by (simp add: mint_def)

lemma newChild_root_ok:
  assumes "root_ok dag" and "u \<noteq> uuidR"
  shows "fst (newChild uuidR u t dag) = Inr u" and "root_ok (snd (newChild uuidR u t dag))"
    and "NewVersionID (snd (newChild uuidR u t dag)) = NewVersionID dag + 1"
    and "assigned [DoChild uuidR u t] dag = [NewVersionID dag]"
  using assms by (auto simp: root_ok_def newChild_def Let_def update_conv' split: option.splits)

lemma newChild_keys:
  "fst (newChild parent u t dag) = Inr u' \<Longrightarrow>
     fst ` set (Nodes (snd (newChild parent u t dag))) = insert u (fst ` set (Nodes dag))"
  by (auto simp: newChild_def Let_def dom_update split: option.splits if_splits
      dest: map_of_SomeD intro: rev_image_eqI)

lemma children_run:
  "root_ok dag \<Longrightarrow>
     root_ok (run (children uuidR n) dag) \<and>
     NewVersionID (run (children uuidR n) dag) = NewVersionID dag + of_nat n \<and>
     length (assigned (children uuidR n) dag) = n"
proof (induction n)
  case 0
  then show ?case by simp
next
  case (Suc n)
  then have ih: "root_ok (run (children uuidR n) dag)"
    "NewVersionID (run (children uuidR n) dag) = NewVersionID dag + of_nat n"
    "length (assigned (children uuidR n) dag) = n" by simp_all
  note nc = newChild_root_ok [OF ih(1) mint_neq_uuidR, of n n]
  show ?case
    using nc ih(2,3) by (simp add: run_append assigned_append del: assigned.simps)
qed

lemma children_keys:
  "root_ok dag \<Longrightarrow>
     fst ` set (Nodes (run (children uuidR n) dag)) = fst ` set (Nodes dag) \<union> mint ` {0 ..< n}"
proof (induction n)
  case 0
  then show ?case by simp
next
  case (Suc n)
  from children_run [OF Suc.prems, of n] have ok: "root_ok (run (children uuidR n) dag)" by simp
  from newChild_keys [OF newChild_root_ok(1) [OF ok mint_neq_uuidR]] Suc
  show ?case by (auto simp: run_append less_Suc_eq)
qed

lemma children_fresh:
  assumes "root_ok dag" and "fst ` set (Nodes dag) = {uuidR}" and "n \<le> 16 ^ 31"
  shows "fresh (children uuidR n) dag"
  using assms(3)
proof (induction n)
  case 0
  then show ?case by simp
next
  case (Suc n)
  then have ih: "fresh (children uuidR n) dag" and n: "n < 16 ^ 31" by simp_all
  from children_run [OF assms(1), of n] have ok: "root_ok (run (children uuidR n) dag)" by simp
  have "mint n \<notin> mint ` {0 ..< n}"
  proof
    assume "mint n \<in> mint ` {0 ..< n}"
    then obtain m where "m < n" "mint n = mint m" by auto
    with n mint_inj [of n m] show False by simp
  qed
  then have "mint n \<notin> fst ` set (Nodes (run (children uuidR n) dag))"
    using children_keys [OF assms(1), of n] assms(2) mint_neq_uuidR by simp
  with ih newChild_root_ok(1) [OF ok mint_neq_uuidR, of n n] show ?case
    by (simp add: fresh_append)
qed

lemma root_ok_dagL: "root_ok dagL"
  by (simp add: root_ok_def dagL_eq)

lemma branch_ops_run:
  "root_ok (run (branch_ops n) (NewVersionDAG uuidR 10)) \<and>
   NewVersionID (run (branch_ops n) (NewVersionDAG uuidR 10)) = 1 + of_nat n \<and>
   length (assigned (branch_ops n) (NewVersionDAG uuidR 10)) = n"
  using children_run [OF root_ok_dagL, of n]
  by (simp add: branch_ops_def dagL_def dagR_def) (simp add: dagL_eq flip: dagL_def dagR_def)

lemma branch_ops_fresh: "n \<le> 16 ^ 31 \<Longrightarrow> fresh (branch_ops n) (NewVersionDAG uuidR 10)"
  using children_fresh [OF root_ok_dagL, of n]
  by (simp add: branch_ops_def exOps_steps)

text \<open>
  Counterexample to C4 as stated (for every number of children): lock the root and
  branch from it 32767 times, with fresh UUIDs. All 32767 calls succeed, the root still has
  the id 0, and the counter, read as a signed 16-bit integer, is -32768: it does not
  exceed the id of the root. After 65535 children the counter is 0 again, whichever way
  the 16 bits are read, and the next child would reuse the id of the root.
\<close>

theorem version_id_counter_wraps:
  "fresh (branch_ops 32767) (NewVersionDAG uuidR 10) \<and>
   length (assigned (branch_ops 32767) (NewVersionDAG uuidR 10)) = 32767 \<and>
   map_option (\<lambda>n. VersionID (NodeVersion n))
     (map_of (Nodes (run (branch_ops 32767) (NewVersionDAG uuidR 10))) uuidR) = Some 0 \<and>
   sint (NewVersionID (run (branch_ops 32767) (NewVersionDAG uuidR 10))) = - 32768 \<and>
   \<not> (0 <s NewVersionID (run (branch_ops 32767) (NewVersionDAG uuidR 10))) \<and>
   NewVersionID (run (branch_ops 65535) (NewVersionDAG uuidR 10)) = 0"
  using branch_ops_run [of 32767] branch_ops_run [of 65535] branch_ops_fresh [of 32767]
  by (auto simp: root_ok_def word_sless_alt split: option.splits)

subsection \<open>Data ids\<close>

lemma NewData_NewDataID:
  "NewDataID (VersionDAG (snd (NewData T N name typeName config dset))) = NewDataID (VersionDAG dset)"
  by (simp add: NewData_def Let_def split: option.splits sum.splits)

text \<open>
  Claim C5: each successful \<^verbatim>\<open>NewData\<close> takes a fresh data id from the increasing counter
  \<^verbatim>\<open>NewDataID\<close>, so two successive calls give distinct ids. The code reads the counter and
  never increments it (\<open>NewData_NewDataID\<close>). Evaluated: two successful calls on one Dataset,
  for the names gray and mask, both pass the data id 1 to the constructor, and the
  counter is 1 before and after.
\<close>

theorem NewData_reuses_data_id:
  "fst (NewData exTypeServiceByName exNewDataService ''gray'' ''grayscale8'' () exDataset) = None \<and>
   fst (NewData exTypeServiceByName exNewDataService ''mask'' ''grayscale8'' () exDataset1) = None \<and>
   map (\<lambda>kv. (fst kv, ID (snd kv))) (nameMap exDataset2) = [(''gray'', 1), (''mask'', 1)] \<and>
   NewDataID (VersionDAG exDataset) = 1 \<and> NewDataID (VersionDAG exDataset2) = 1"
  by (simp add: exDataset2_def exDataset2_eq exDataset1_eq) (simp add: exDataset_def)

subsection \<open>Duplicate data names\<close>

text \<open>
  Claim C8: \<^verbatim>\<open>NewData\<close> with a name already in the name map fails with the already-exists
  error and returns the Dataset (name map and data-id counter included) as it was; and
  after a successful \<^verbatim>\<open>NewData\<close> for a name, a second call for that name fails so,
  whatever its type name and configuration.
\<close>

theorem NewData_duplicate_name:
  "(\<forall>dataservice. map_of (nameMap dset) name = Some dataservice \<longrightarrow>
      NewData T N name typeName config dset =
        (Some (AlreadyExists name (Root (VersionDAG dset))), dset)) \<and>
   (\<forall>dset'. NewData T N name typeName config dset = (None, dset') \<longrightarrow>
      NewData T N name typeName' config' dset' =
        (Some (AlreadyExists name (Root (VersionDAG dset'))), dset'))"
proof (intro conjI allI impI)
  fix dset' assume ok: "NewData T N name typeName config dset = (None, dset')"
  then have "map_of (nameMap dset') name \<noteq> None"
    by (auto simp: NewData_def Let_def update_conv' split: option.splits sum.splits)
  then show "NewData T N name typeName' config' dset' =
        (Some (AlreadyExists name (Root (VersionDAG dset'))), dset')"
    by (auto simp: NewData_def)
qed (simp add: NewData_def)

text \<open>
Witness for C8: adding the name gray twice.
\<close>

theorem NewData_duplicate_name_witness:
  "NewData exTypeServiceByName exNewDataService ''gray'' ''grayscale8'' () exDataset = (None, exDataset1) \<and>
   map_of (nameMap exDataset1) ''gray'' = Some \<lparr>DataName = ''gray'', ID = 1, DsetID = 0\<rparr> \<and>
   NewData exTypeServiceByName exNewDataService ''gray'' ''grayscale8'' () exDataset1 =
     (Some (AlreadyExists ''gray'' uuidR), exDataset1)"
proof -
  have 1: "NewData exTypeServiceByName exNewDataService ''gray'' ''grayscale8'' () exDataset = (None, exDataset1)"
    by (simp add: exDataset1_def exDataset1_eq)
  have 2: "map_of (nameMap exDataset1) ''gray'' = Some \<lparr>DataName = ''gray'', ID = 1, DsetID = 0\<rparr>"
    by (simp add: exDataset1_def exDataset1_eq)
  have 3: "Root (VersionDAG exDataset1) = uuidR"
    by (simp add: exDataset1_def exDataset1_eq) (simp add: exDataset_def NewVersionDAG_def Let_def)
  from NewData_duplicate_name [of exDataset1 "''gray''" exTypeServiceByName exNewDataService "''grayscale8''" "()" "''grayscale8''" "()"]
    NewData_duplicate_name [of exDataset "''gray''" exTypeServiceByName exNewDataService "''grayscale8''" "()" "''grayscale8''" "()"]
    1 2 3
  show ?thesis by simp
qed

subsection \<open>Saving and loading the registry\<close>

lemma inner_fold:
  "fold (\<lambda>u dsets. dsets\<lparr>versionMap := AList.update u a (versionMap dsets)\<rparr>) us dsets =
     dsets\<lparr>versionMap := fold (\<lambda>u vm. AList.update u a vm) us (versionMap dsets)\<rparr>"
  by (induction us arbitrary: dsets) simp_all

lemma outer_fold:
  "fold (\<lambda>dset dsets.
      fold (\<lambda>u dsets. dsets\<lparr>versionMap := AList.update u dset (versionMap dsets)\<rparr>)
        (Versions (VersionDAG (heap dsets ! dset))) dsets) as dsets =
   dsets\<lparr>versionMap := rebuild (\<lambda>a. Versions (VersionDAG (heap dsets ! a))) as (versionMap dsets)\<rparr>"
  by (induction as arbitrary: dsets) (simp_all add: rebuild_def inner_fold)

lemma inner_keys: "fst ` set (fold (\<lambda>u vm. AList.update u a vm) us vm) = fst ` set vm \<union> set us"
  by (induction us arbitrary: vm) (auto simp: dom_update)

lemma rebuild_keys: "fst ` set (rebuild V as vm) = fst ` set vm \<union> (\<Union>a \<in> set as. set (V a))"
  by (induction as arbitrary: vm) (auto simp: rebuild_def inner_keys)

lemma inner_distinct:
  "distinct (map fst vm) \<Longrightarrow> distinct (map fst (fold (\<lambda>u vm. AList.update u a vm) us vm))"
  by (induction us arbitrary: vm) (simp_all add: distinct_update)

lemma rebuild_distinct: "distinct (map fst vm) \<Longrightarrow> distinct (map fst (rebuild V as vm))"
  by (induction as arbitrary: vm) (simp_all add: rebuild_def inner_distinct)

lemma inner_lookup:
  "map_of (fold (\<lambda>u vm. AList.update u a vm) us vm) k =
     (if k \<in> set us then Some a else map_of vm k)"
  by (induction us arbitrary: vm) (auto simp: update_conv')

lemma rebuild_sound:
  "map_of (rebuild V as vm) u = Some b \<Longrightarrow>
     map_of vm u = Some b \<or> (b \<in> set as \<and> u \<in> set (V b))"
proof (induction as arbitrary: vm)
  case Nil
  then show ?case by (simp add: rebuild_def)
next
  case (Cons a as)
  from Cons.prems have "map_of (rebuild V as (fold (\<lambda>u vm. AList.update u a vm) (V a) vm)) u = Some b"
    by (simp add: rebuild_def)
  from Cons.IH [OF this] show ?case
    by (auto simp: inner_lookup split: if_splits)
qed

text \<open>
  Claim C6: loading what was saved reproduces the registry. Let the encoder succeed on
  the registry with the bytes \<open>s\<close>, and let the decoder read \<open>s\<close> back to the persisted
  content. Then \<^verbatim>\<open>Deserialize\<close> of \<open>s\<close>, into any registry, returns no error; the result has
  the same ordered sequence of Datasets with the same version DAGs (root, node map,
  counters), aliases and dataset ids, and the same dataset-id counter; and its index is
  rebuilt: its keys are distinct, they are exactly the UUIDs of \<^verbatim>\<open>Versions()\<close> of all the
  Datasets, and each key is mapped to a Dataset of the sequence whose DAG holds it.
\<close>

theorem Deserialize_Serialize_roundtrip:
  fixes enc :: "Gob \<Rightarrow> error + 'b" and dec :: "'b \<Rightarrow> error + Gob"
    and dsets :: "'ds Datasets" and target :: "'ds2 Datasets"
  assumes "Serialize enc dsets = Inr s" and "dec s = Inr (exported dsets)"
  shows "fst (Deserialize dec s target) = None \<and>
    exported (snd (Deserialize dec s target)) = exported dsets \<and>
    distinct (map fst (versionMap (snd (Deserialize dec s target)))) \<and>
    fst ` set (versionMap (snd (Deserialize dec s target))) =
      (\<Union>a \<in> set (Datasets (snd (Deserialize dec s target))).
         set (Versions (VersionDAG (heap (snd (Deserialize dec s target)) ! a)))) \<and>
    (\<forall>u b. map_of (versionMap (snd (Deserialize dec s target))) u = Some b \<longrightarrow>
       b \<in> set (Datasets (snd (Deserialize dec s target))) \<and>
       u \<in> set (Versions (VersionDAG (heap (snd (Deserialize dec s target)) ! b))))"
proof -
  obtain ds newID where ex: "exported dsets = (ds, newID)" by (cases "exported dsets")
  define base where "base = length (heap target)"
  define h where "h = heap target @ map (decoded :: _ \<Rightarrow> 'ds2 Dataset) ds"
  define V where "V = (\<lambda>a. Versions (VersionDAG (h ! a)))"
  define as where "as = [base ..< base + length ds]"
  define r where "r = target\<lparr>Datasets := as, heap := h, NewDatasetID := newID,
    versionMap := rebuild V as []\<rparr>"
  have D: "Deserialize dec s target = (None, r)"
    using assms(2) ex
    by (simp add: Deserialize_def Let_def outer_fold r_def as_def h_def V_def base_def)
  have nth: "h ! (base + i) = decoded (ds ! i)" if "i < length ds" for i
    using that by (simp add: h_def base_def nth_append)
  have "map (\<lambda>a. (VersionDAG (h ! a), Alias (h ! a), DatasetID (h ! a))) as = ds"
    by (rule nth_equalityI) (auto simp: as_def nth decoded_def split: prod.splits)
  then have E: "exported r = exported dsets"
    by (simp add: exported_def r_def ex [unfolded exported_def])
  have K: "fst ` set (versionMap r) = (\<Union>a \<in> set (Datasets r). set (Versions (VersionDAG (heap r ! a))))"
    by (simp add: r_def rebuild_keys V_def)
  have S: "b \<in> set (Datasets r) \<and> u \<in> set (Versions (VersionDAG (heap r ! b)))"
    if "map_of (versionMap r) u = Some b" for u b
    using rebuild_sound [of V as "[]" u b] that by (simp add: r_def V_def)
  have I: "distinct (map fst (versionMap r))"
    by (simp add: r_def rebuild_distinct)
  show ?thesis using E K S I by (simp add: D)
qed

text \<open>
  Witness for C6: the registry with one Dataset, a locked root and one branch, with the
  codec that writes the persisted content itself, loaded into the empty registry.
\<close>

theorem Deserialize_Serialize_roundtrip_witness:
  "Serialize Inr exRegistry2 = Inr (exported exRegistry2) \<and>
   fst (Deserialize Inr (exported exRegistry2) emptyDatasets) = None \<and>
   exported (snd (Deserialize Inr (exported exRegistry2) emptyDatasets)) = exported exRegistry2"
proof -
  have 1: "Serialize Inr exRegistry2 = Inr (exported exRegistry2)" by (simp add: Serialize_def)
  have 2: "(Inr :: Gob \<Rightarrow> error + Gob) (exported exRegistry2) = Inr (exported exRegistry2)" by simp
  from Deserialize_Serialize_roundtrip [where enc = Inr and dec = Inr and dsets = exRegistry2
      and s = "exported exRegistry2" and target = emptyDatasets] 1 2
  show ?thesis by simp
qed

text \<open>
  Counterexample to C9 as stated (a failed load leaves the Datasets sequence and the index
  as before): on the registry with one Dataset, \<^verbatim>\<open>Deserialize\<close> with a decoder that rejects
  the bytes returns an error, and the sequence \<^verbatim>\<open>Datasets\<close>, which held one Dataset, is
  empty afterwards, while the index still has its two entries.
\<close>

theorem failed_Deserialize_resets_Datasets:
  "fst (Deserialize exFailingDecoder [] exRegistry2) = Some (DeserializeError (External ''checksum mismatch'')) \<and>
   Datasets exRegistry2 = [0] \<and>
   Datasets (snd (Deserialize exFailingDecoder [] exRegistry2)) = [] \<and>
   versionMap (snd (Deserialize exFailingDecoder [] exRegistry2)) = [(uuidR, 0), (uuidC1, 0)]"
  by (simp add: Deserialize_def exFailingDecoder_def exRegistry2_eq)

text \<open>
  Claim C9, amended: when the backend read fails, \<^verbatim>\<open>Get\<close> returns that error and the
  registry as it was. When the decoder fails, \<^verbatim>\<open>Deserialize\<close> (and \<^verbatim>\<open>Get\<close> through it)
  returns a deserialization error; the index, the Dataset objects and the dataset-id
  counter are as before, and the sequence \<^verbatim>\<open>Datasets\<close> has been reset to empty.
\<close>

theorem failed_load_state:
  fixes dec :: "'b \<Rightarrow> error + Gob" and dsets :: "'ds Datasets"
  shows "(\<forall>err. got = Inl err \<longrightarrow> Get dec got dsets = (Some err, dsets)) \<and>
   (\<forall>err. dec s = Inl err \<longrightarrow>
      Deserialize dec s dsets = (Some (DeserializeError err), dsets\<lparr>Datasets := []\<rparr>) \<and>
      Get dec (Inr s) dsets = (Some (DeserializeError err), dsets\<lparr>Datasets := []\<rparr>))"
  by (simp add: Get_def Deserialize_def)

text \<open>
Witness for C9: a backend that misses the key, and a decoder that rejects the bytes.
\<close>

theorem failed_load_state_witness:
  "Get exFailingDecoder (Inl (External ''key not found'')) exRegistry2 =
     (Some (External ''key not found''), exRegistry2) \<and>
   exFailingDecoder [] = Inl (External ''checksum mismatch'') \<and>
   Get exFailingDecoder (Inr []) exRegistry2 =
     (Some (DeserializeError (External ''checksum mismatch'')), exRegistry2\<lparr>Datasets := []\<rparr>)"
  using failed_load_state [of "Inl (External ''key not found'')" exFailingDecoder exRegistry2 "[]"]
    failed_load_state [of "Inr []" exFailingDecoder exRegistry2 "[]"]
  by (simp add: exFailingDecoder_def)

subsection \<open>Lookup by prefix\<close>

lemma matches_simps [simp]:
  "matches str [] = []"
  "matches str ((k, v) # kvs) = (if HasPrefix k str then (k, v) # matches str kvs else matches str kvs)"
  by (simp_all add: matches_def)

lemma DatasetFromString_loop_eq:
  "DatasetFromString_loop str kvs (n, d, u) =
     (n + length (matches str kvs),
      if matches str kvs = [] then d else Some (snd (last (matches str kvs))),
      if matches str kvs = [] then u else fst (last (matches str kvs)))"
  by (induction kvs arbitrary: n d u) (auto split: if_splits)

lemma VersionIdFromString_loop_eq:
  "VersionIdFromString_loop str kvs (n, l) =
     (n + length (matches str kvs),
      if matches str kvs = [] then l else snd (last (matches str kvs)))"
  by (induction kvs arbitrary: n l) (auto split: if_splits)

lemma matches_keys:
  "fst ` set (matches str kvs) = {u \<in> fst ` set kvs. HasPrefix u str}"
  by (auto simp: matches_def)

lemma matches_distinct: "distinct (map fst kvs) \<Longrightarrow> distinct (map fst (matches str kvs))"
  by (simp add: matches_def distinct_map_filter)

lemma matches_card:
  assumes "distinct (map fst kvs)"
  shows "card {u \<in> fst ` set kvs. HasPrefix u str} = length (matches str kvs)"
proof -
  have "card (set (map fst (matches str kvs))) = length (map fst (matches str kvs))"
    using assms by (intro distinct_card matches_distinct)
  then show ?thesis by (simp add: matches_keys)
qed

lemma matches_single:
  assumes "distinct (map fst kvs)" and "{u \<in> fst ` set kvs. HasPrefix u str} = {u}"
  shows "\<exists>v. matches str kvs = [(u, v)] \<and> map_of kvs u = Some v"
proof -
  have "length (matches str kvs) = 1"
    using matches_card [OF assms(1), of str] assms(2) by simp
  then obtain k v where kv: "matches str kvs = [(k, v)]"
    by (cases "matches str kvs") auto
  then have "fst ` set (matches str kvs) = {k}" by simp
  with assms(2) have "k = u" by (simp add: matches_keys)
  have "(k, v) \<in> set (matches str kvs)" using kv by simp
  then have "(k, v) \<in> set kvs" by (simp add: matches_def)
  with assms(1) have "map_of kvs k = Some v" by simp
  with kv \<open>k = u\<close> show ?thesis by simp
qed

text \<open>
  Claim C7: over a map with distinct keys, visited in any order. When exactly one UUID
  starts with the prefix, \<^verbatim>\<open>DatasetFromString\<close> returns the Dataset and that UUID without
  error, and \<^verbatim>\<open>VersionIdFromString\<close> returns its id without error; when none does, both
  return the not-found error; when two or more do, both return the ambiguous error.
\<close>

theorem prefix_resolution:
  assumes "distinct (map fst (versionMap dsets))" and "distinct (map fst vm)"
  shows
  "(\<forall>u. {k \<in> fst ` set (versionMap dsets). HasPrefix k str} = {u} \<longrightarrow>
      DatasetFromString str dsets = (map_of (versionMap dsets) u, u, None) \<and>
      map_of (versionMap dsets) u \<noteq> None) \<and>
   ({k \<in> fst ` set (versionMap dsets). HasPrefix k str} = {} \<longrightarrow>
      DatasetFromString str dsets = (None, [], Some (NotFound str))) \<and>
   (2 \<le> card {k \<in> fst ` set (versionMap dsets). HasPrefix k str} \<longrightarrow>
      snd (snd (DatasetFromString str dsets)) = Some (Ambiguous str)) \<and>
   (\<forall>u. {k \<in> fst ` set vm. HasPrefix k str} = {u} \<longrightarrow>
      (\<exists>i. map_of vm u = Some i \<and> VersionIdFromString str vm = (i, None))) \<and>
   ({k \<in> fst ` set vm. HasPrefix k str} = {} \<longrightarrow>
      VersionIdFromString str vm = (0, Some (NotFound str))) \<and>
   (2 \<le> card {k \<in> fst ` set vm. HasPrefix k str} \<longrightarrow>
      VersionIdFromString str vm = (0, Some (Ambiguous str)))"
proof (intro conjI allI impI)
  fix u assume "{k \<in> fst ` set (versionMap dsets). HasPrefix k str} = {u}"
  from matches_single [OF assms(1) this] obtain v
    where "matches str (versionMap dsets) = [(u, v)]" "map_of (versionMap dsets) u = Some v" by blast
  then show "DatasetFromString str dsets = (map_of (versionMap dsets) u, u, None)"
    and "map_of (versionMap dsets) u \<noteq> None"
    by (simp_all add: DatasetFromString_def DatasetFromString_loop_eq)
next
  assume "{k \<in> fst ` set (versionMap dsets). HasPrefix k str} = {}"
  then have "matches str (versionMap dsets) = []"
    by (auto simp: matches_def filter_empty_conv)
  then show "DatasetFromString str dsets = (None, [], Some (NotFound str))"
    by (simp add: DatasetFromString_def DatasetFromString_loop_eq)
next
  assume "2 \<le> card {k \<in> fst ` set (versionMap dsets). HasPrefix k str}"
  then have "2 \<le> length (matches str (versionMap dsets))"
    by (simp add: matches_card [OF assms(1)])
  then show "snd (snd (DatasetFromString str dsets)) = Some (Ambiguous str)"
    by (simp add: DatasetFromString_def DatasetFromString_loop_eq)
next
  fix u assume "{k \<in> fst ` set vm. HasPrefix k str} = {u}"
  from matches_single [OF assms(2) this] obtain v
    where "matches str vm = [(u, v)]" "map_of vm u = Some v" by blast
  then show "\<exists>i. map_of vm u = Some i \<and> VersionIdFromString str vm = (i, None)"
    by (simp add: VersionIdFromString_def VersionIdFromString_loop_eq)
next
  assume "{k \<in> fst ` set vm. HasPrefix k str} = {}"
  then have "matches str vm = []"
    by (auto simp: matches_def filter_empty_conv)
  then show "VersionIdFromString str vm = (0, Some (NotFound str))"
    by (simp add: VersionIdFromString_def VersionIdFromString_loop_eq)
next
  assume "2 \<le> card {k \<in> fst ` set vm. HasPrefix k str}"
  then have "2 \<le> length (matches str vm)"
    by (simp add: matches_card [OF assms(2)])
  then show "VersionIdFromString str vm = (0, Some (Ambiguous str))"
    by (simp add: VersionIdFromString_def VersionIdFromString_loop_eq)
qed

text \<open>
  Witness for C7: three UUIDs, two of which start with 3f9 and one with 7cd; none
  starts with 836.
\<close>

theorem prefix_resolution_witness:
  "distinct (map fst (versionMap exRegistry3)) \<and> distinct (map fst exVersionMap) \<and>
   DatasetFromString ''7cd'' exRegistry3 = (Some 0, uuidC2, None) \<and>
   DatasetFromString ''836'' exRegistry3 = (None, [], Some (NotFound ''836'')) \<and>
   snd (snd (DatasetFromString ''3f9'' exRegistry3)) = Some (Ambiguous ''3f9'') \<and>
   VersionIdFromString ''7cd'' exVersionMap = (2, None) \<and>
   VersionIdFromString ''836'' exVersionMap = (0, Some (NotFound ''836'')) \<and>
   VersionIdFromString ''3f9'' exVersionMap = (0, Some (Ambiguous ''3f9''))"
proof -
  have d: "distinct (map fst (versionMap exRegistry3))" "distinct (map fst exVersionMap)"
    by (simp_all add: exRegistry3_versionMap exVersionMap_def)
  have k: "fst ` set (versionMap exRegistry3) = {uuidR, uuidC1, uuidC2}"
    "fst ` set exVersionMap = {uuidR, uuidC1, uuidC2}"
    by (simp_all add: exRegistry3_versionMap exVersionMap_def)
  have c: "card {uuidR, uuidC1} = 2" by simp
  have m: "map_of (versionMap exRegistry3) uuidC2 = Some 0" "map_of exVersionMap uuidC2 = Some 2"
    by (simp_all add: exRegistry3_versionMap exVersionMap_def)
  from prefix_resolution [OF d, of "''7cd''"] prefix_resolution [OF d, of "''836''"] prefix_resolution [OF d, of "''3f9''"]
  show ?thesis
    unfolding k ex_match_sets c using d m by auto
qed

text \<open>
  Claim C10: when two or more UUIDs of the index start with the prefix,
  \<^verbatim>\<open>DatasetFromString\<close> returns the ambiguous error together with a Dataset and a UUID
  that are not cleared: they are the last matching entry that the loop visited.
\<close>

theorem DatasetFromString_ambiguous_keeps_last_match:
  assumes "distinct (map fst (versionMap dsets))"
    and "2 \<le> card {k \<in> fst ` set (versionMap dsets). HasPrefix k str}"
  shows "\<exists>u a. DatasetFromString str dsets = (Some a, u, Some (Ambiguous str)) \<and>
           (u, a) = last (filter (\<lambda>kv. HasPrefix (fst kv) str) (versionMap dsets)) \<and>
           map_of (versionMap dsets) u = Some a \<and> HasPrefix u str"
proof -
  let ?ms = "matches str (versionMap dsets)"
  have len: "2 \<le> length ?ms" using assms by (simp add: matches_card)
  then have ne: "?ms \<noteq> []" by auto
  then have "last ?ms \<in> set ?ms" by simp
  then have mem: "last ?ms \<in> set (versionMap dsets)" and pre: "HasPrefix (fst (last ?ms)) str"
    by (simp_all add: matches_def)
  from mem assms(1) have "map_of (versionMap dsets) (fst (last ?ms)) = Some (snd (last ?ms))"
    by (metis map_of_is_SomeI prod.collapse)
  with len ne pre show ?thesis
    by (intro exI [of _ "fst (last ?ms)"] exI [of _ "snd (last ?ms)"])
       (simp add: DatasetFromString_def DatasetFromString_loop_eq matches_def)
qed

text \<open>
Witness for C10: the prefix 3f9 on the index of three UUIDs.
\<close>

theorem DatasetFromString_ambiguous_keeps_last_match_witness:
  "distinct (map fst (versionMap exRegistry3)) \<and>
   2 \<le> card {k \<in> fst ` set (versionMap exRegistry3). HasPrefix k ''3f9''} \<and>
   DatasetFromString ''3f9'' exRegistry3 = (Some 0, uuidC1, Some (Ambiguous ''3f9''))"
proof -
  have d: "distinct (map fst (versionMap exRegistry3))"
    by (simp add: exRegistry3_versionMap)
  have k: "fst ` set (versionMap exRegistry3) = {uuidR, uuidC1, uuidC2}"
    by (simp add: exRegistry3_versionMap)
  have c: "2 \<le> card {k \<in> fst ` set (versionMap exRegistry3). HasPrefix k ''3f9''}"
    unfolding k ex_match_sets by simp
  have l: "last (filter (\<lambda>kv. HasPrefix (fst kv) ''3f9'') (versionMap exRegistry3)) = (uuidC1, 0)"
    by (simp add: exRegistry3_versionMap HasPrefix_ex)
  from DatasetFromString_ambiguous_keeps_last_match [OF d c] d c l show ?thesis by auto
qed

end
